theory Spec2Isabelle
  imports Main "HOL-Library.Multiset"
begin

section \<open>The values that the differ handles\<close>

text \<open>
  The two prototype objects that a decoded value inherits from: \<open>Object.prototype\<close> and
  \<open>Array.prototype\<close>.
\<close>

datatype proto = ObjectPrototype | ArrayPrototype

text \<open>
  The first six constructors are the decoded JSON values, as \<open>JSON.parse\<close> hands them to
  \<open>JSONComparator.tsx\<close>. The type of numbers is a parameter \<open>'n\<close>; its HOL equality
  stands for \<open>===\<close> on the numbers that \<open>JSON.parse\<close> can produce. An object is the list
  of its own enumerable properties in the order of \<open>Object.keys\<close>; a decoded object has
  pairwise distinct keys (\<open>wf_json\<close> below). Characters of a \<open>string\<close> stand for the code
  units that the source indexes.

  The last two constructors are the values that are not decoded from any text but that
  \<open>obj[key]\<close> returns for a key that the object inherits: \<open>JFun pr name\<close> is the
  built-in function that the prototype \<open>pr\<close> holds under \<open>name\<close>, and \<open>JProto pr\<close> is
  the prototype object itself.
\<close>

datatype 'n json =
    JNull
  | JBool bool
  | JNum 'n
  | JStr string
  | JArr "'n json list"
  | JObj "(string \<times> 'n json) list"
  | JFun proto string
  | JProto proto

text \<open>
  \<open>typeof x === "object" && x !== null\<close>. The type of a function is \<open>"function"\<close>, that
  of a prototype object is \<open>"object"\<close>.
\<close>

fun is_object :: "'n json \<Rightarrow> bool" where
  "is_object (JArr xs) = True"
| "is_object (JObj kvs) = True"
| "is_object (JProto pr) = True"
| "is_object v = False"

text \<open>
  \<open>x === y\<close> for two values of which at least one is not a non-null object (the only
  way the source uses it): primitives are compared by type and value, two functions are
  the same function, and a composite is never \<open>===\<close> to a value that is not one. Two
  composites would be compared by reference; the source never does this, and the last
  equation returns \<open>False\<close> there.
\<close>

fun strict_eq :: "'n json \<Rightarrow> 'n json \<Rightarrow> bool" where
  "strict_eq JNull JNull = True"
| "strict_eq (JBool a) (JBool b) = (a = b)"
| "strict_eq (JNum a) (JNum b) = (a = b)"
| "strict_eq (JStr a) (JStr b) = (a = b)"
| "strict_eq (JFun pr a) (JFun qr b) = (pr = qr \<and> a = b)"
| "strict_eq x y = False"

text \<open>Decimal rendering of an array index, as \<open>Object.keys\<close> of an array gives it.\<close>

fun string_of_nat :: "nat \<Rightarrow> string" where
  "string_of_nat n =
     (if n < 10 then [char_of (48 + n)]
      else string_of_nat (n div 10) @ [char_of (48 + n mod 10)])"

declare string_of_nat.simps [simp del]

text \<open>Reading a decimal rendering back, used to show that distinct indices give distinct keys.\<close>

definition nat_of_string :: "string \<Rightarrow> nat" where
  "nat_of_string s = foldl (\<lambda>acc c. 10 * acc + (of_char c - 48)) 0 s"

text \<open>
  A key that ends in a decimal digit, as every rendering of an index does and no name
  of a built-in member does.
\<close>

definition ends_in_digit :: "string \<Rightarrow> bool" where
  "ends_in_digit k = (k \<noteq> [] \<and> 48 \<le> (of_char (last k) :: nat) \<and> (of_char (last k) :: nat) \<le> 57)"

text \<open>
  The own enumerable properties of a composite: those of an object, and the indices of
  an array as decimal strings; the two prototype objects have none. \<open>Object_keys\<close> is
  \<open>Object.keys\<close>.
\<close>

fun own_entries :: "'n json \<Rightarrow> (string \<times> 'n json) list" where
  "own_entries (JObj kvs) = kvs"
| "own_entries (JArr xs) = zip (map string_of_nat [0..<length xs]) xs"
| "own_entries v = []"

definition Object_keys :: "'n json \<Rightarrow> string list" where
  "Object_keys v = map fst (own_entries v)"

text \<open>
  The source asks \<open>key in obj\<close> and reads \<open>obj[key]\<close>. Both also see the members that
  \<open>Object.keys\<close> does not list: the \<open>length\<close> of an array, and what the composite
  inherits from its prototype. These are the members that ECMAScript 2023 (with its
  annex for browsers) gives to \<open>Object.prototype\<close> and \<open>Array.prototype\<close> under a
  string key: built-in functions, and the accessor \<open>__proto__\<close>, which returns the
  prototype of the object that is asked (\<open>null\<close> for \<open>Object.prototype\<close>).
\<close>

definition Object_prototype_functions :: "string list" where
  "Object_prototype_functions =
     [''constructor'', ''__defineGetter__'', ''__defineSetter__'', ''hasOwnProperty'',
      ''__lookupGetter__'', ''__lookupSetter__'', ''isPrototypeOf'', ''propertyIsEnumerable'',
      ''toString'', ''valueOf'', ''toLocaleString'']"

definition Array_prototype_functions :: "string list" where
  "Array_prototype_functions =
     [''at'', ''concat'', ''constructor'', ''copyWithin'', ''entries'', ''every'', ''fill'',
      ''filter'', ''find'', ''findIndex'', ''findLast'', ''findLastIndex'', ''flat'',
      ''flatMap'', ''forEach'', ''includes'', ''indexOf'', ''join'', ''keys'', ''lastIndexOf'',
      ''map'', ''pop'', ''push'', ''reduce'', ''reduceRight'', ''reverse'', ''shift'', ''slice'',
      ''some'', ''sort'', ''splice'', ''toLocaleString'', ''toReversed'', ''toSorted'',
      ''toSpliced'', ''toString'', ''unshift'', ''values'', ''with'']"

fun prototype_of :: "'n json \<Rightarrow> 'n json" where
  "prototype_of (JObj kvs) = JProto ObjectPrototype"
| "prototype_of (JArr xs) = JProto ArrayPrototype"
| "prototype_of (JProto ArrayPrototype) = JProto ObjectPrototype"
| "prototype_of v = JNull"

text \<open>What \<open>Object.prototype\<close> gives to the composite \<open>v\<close> under the key \<open>k\<close>.\<close>

definition Object_member :: "'n json \<Rightarrow> string \<Rightarrow> 'n json option" where
  "Object_member v k =
     (if k = ''__proto__'' then Some (prototype_of v)
      else if k \<in> set Object_prototype_functions then Some (JFun ObjectPrototype k)
      else None)"

text \<open>
  What an array of length \<open>len\<close>, or \<open>Array.prototype\<close> (an array of length 0), has under
  a key that is not one of its indices: its \<open>length\<close>, a function of \<open>Array.prototype\<close>,
  or else what \<open>Object.prototype\<close> gives.
\<close>

definition Array_member :: "nat \<Rightarrow> 'n::semiring_char_0 json \<Rightarrow> string \<Rightarrow> 'n json option" where
  "Array_member len v k =
     (if k = ''length'' then Some (JNum (of_nat len))
      else if k \<in> set Array_prototype_functions then Some (JFun ArrayPrototype k)
      else Object_member v k)"

fun unlisted_member :: "'n::semiring_char_0 json \<Rightarrow> string \<Rightarrow> 'n json option" where
  "unlisted_member (JObj kvs) k = Object_member (JObj kvs) k"
| "unlisted_member (JArr xs) k = Array_member (length xs) (JArr xs) k"
| "unlisted_member (JProto ObjectPrototype) k = Object_member (JProto ObjectPrototype) k"
| "unlisted_member (JProto ArrayPrototype) k = Array_member 0 (JProto ArrayPrototype) k"
| "unlisted_member v k = None"

text \<open>
  \<open>get_prop obj k\<close> is \<open>None\<close> when \<open>k in obj\<close> is false and \<open>Some (obj[k])\<close> otherwise:
  an own enumerable property comes first, then the members above. Numbers have
  \<open>of_nat\<close> because the length of an array is a number.
\<close>

definition get_prop :: "'n::semiring_char_0 json \<Rightarrow> string \<Rightarrow> 'n json option" where
  "get_prop v k =
     (case map_of (own_entries v) k of
        Some x \<Rightarrow> Some x
      | None \<Rightarrow> unlisted_member v k)"

text \<open>
  \<open>new Set([...keys1, ...keys2])\<close> iterated by \<open>forEach\<close>: the elements in the order of
  their first insertion.
\<close>

fun Set_of :: "'a list \<Rightarrow> 'a list \<Rightarrow> 'a list" where
  "Set_of acc [] = acc"
| "Set_of acc (k # ks) = (if k \<in> set acc then Set_of acc ks else Set_of (acc @ [k]) ks)"

definition allKeys :: "'n json \<Rightarrow> 'n json \<Rightarrow> string list" where
  "allKeys obj1 obj2 = Set_of [] (Object_keys obj1 @ Object_keys obj2)"

section \<open>The structural differ\<close>

datatype diff_type = Added | Removed | Modified | Equal

text \<open>A field that the source leaves out (\<open>undefined\<close>) is \<open>None\<close>.\<close>

record 'n DiffResult =
  path :: string
  type :: diff_type
  oldValue :: "'n json option"
  newValue :: "'n json option"

text \<open>\<open>path || "root"\<close>\<close>

definition or_root :: "string \<Rightarrow> string" where
  "or_root p = (if p = [] then ''root'' else p)"

text \<open>The record pushed for two values that are not both composites.\<close>

definition leaf_record :: "string \<Rightarrow> 'n json \<Rightarrow> 'n json \<Rightarrow> 'n DiffResult" where
  "leaf_record p val1 val2 =
     (if \<not> strict_eq val1 val2
      then \<lparr>path = p, type = Modified, oldValue = Some val1, newValue = Some val2\<rparr>
      else \<lparr>path = p, type = Equal, oldValue = Some val1, newValue = Some val2\<rparr>)"

lemma size_own_entries:
  "(k, v) \<in> set (own_entries obj) \<Longrightarrow> size v < size obj"
proof (cases obj)
  case (JArr xs)
  assume "(k, v) \<in> set (own_entries obj)"
  with JArr have "v \<in> set xs" by (auto dest: set_zip_rightD)
  then have "size v \<le> size_list size xs" by (simp add: size_list_estimation')
  with JArr show ?thesis by simp
next
  case (JObj kvs)
  assume "(k, v) \<in> set (own_entries obj)"
  with JObj have m: "(k, v) \<in> set kvs" by simp
  have "size_prod (\<lambda>_. 0) size (k, v) \<le> size_list (size_prod (\<lambda>_. 0) size) kvs"
    using m by (rule size_list_estimation') simp
  with JObj show ?thesis by simp
qed simp_all

lemma size_unlisted_member: "unlisted_member obj k = Some v \<Longrightarrow> size v \<le> size obj"
  by (cases "(obj, k)" rule: unlisted_member.cases)
     (auto simp: Object_member_def Array_member_def split: if_splits)

lemma size_get_prop: "get_prop obj k = Some v \<Longrightarrow> size v \<le> size obj"
  unfolding get_prop_def
  by (auto split: option.splits dest: size_unlisted_member
        dest!: map_of_SomeD size_own_entries)

lemma size_get_prop_own:
  "k \<in> set (Object_keys obj) \<Longrightarrow> get_prop obj k = Some v \<Longrightarrow> size v < size obj"
  unfolding get_prop_def Object_keys_def
  by (auto split: option.splits simp: map_of_eq_None_iff dest!: map_of_SomeD size_own_entries)

lemma set_Set_of: "set (Set_of acc ks) = set acc \<union> set ks"
  by (induction acc ks rule: Set_of.induct) auto

lemma set_allKeys: "set (allKeys a b) = set (Object_keys a) \<union> set (Object_keys b)"
  by (simp add: allKeys_def set_Set_of)

lemma size_children:
  assumes "k \<in> set (allKeys a b)" and "get_prop a k = Some x" and "get_prop b k = Some y"
  shows "size x + size y < size a + size b"
proof -
  from assms(1) have "k \<in> set (Object_keys a) \<or> k \<in> set (Object_keys b)"
    by (simp add: set_allKeys)
  then show ?thesis
  proof
    assume "k \<in> set (Object_keys a)"
    with assms(2) have "size x < size a" by (rule size_get_prop_own [rotated])
    moreover from assms(3) have "size y \<le> size b" by (rule size_get_prop)
    ultimately show ?thesis by simp
  next
    assume "k \<in> set (Object_keys b)"
    with assms(3) have "size y < size b" by (rule size_get_prop_own [rotated])
    moreover from assms(2) have "size x \<le> size a" by (rule size_get_prop)
    ultimately show ?thesis by simp
  qed
qed

function compareObjects ::
  "'n::semiring_char_0 json \<Rightarrow> 'n json \<Rightarrow> string \<Rightarrow> 'n DiffResult list" where
  "compareObjects obj1 obj2 p =
     (if \<not> (is_object obj1 \<and> is_object obj2) then [leaf_record (or_root p) obj1 obj2]
      else concat (map (\<lambda>key.
        let newPath = (if p \<noteq> [] then p @ ''.'' @ key else key) in
        case get_prop obj1 key of
          None \<Rightarrow>
            [\<lparr>path = newPath, type = Added, oldValue = None, newValue = get_prop obj2 key\<rparr>]
        | Some val1 \<Rightarrow>
            (case get_prop obj2 key of
               None \<Rightarrow>
                 [\<lparr>path = newPath, type = Removed, oldValue = Some val1, newValue = None\<rparr>]
             | Some val2 \<Rightarrow>
                 if is_object val1 \<and> is_object val2 then compareObjects val1 val2 newPath
                 else [leaf_record newPath val1 val2]))
        (allKeys obj1 obj2)))"
  by pat_completeness auto
termination
  by (relation "measure (\<lambda>(obj1, obj2, p). size obj1 + size obj2)")
     (auto dest: size_children)

declare compareObjects.simps [simp del]

text \<open>
  The body of the \<open>forEach\<close> callback for one key, and the path \<open>newPath\<close> that it
  builds, under names of their own: \<open>compareObjects_unfold\<close> below shows that
  \<open>compareObjects\<close> on two composites is \<open>per_key\<close> at every key of \<open>allKeys\<close>.
\<close>

definition child_path :: "string \<Rightarrow> string \<Rightarrow> string" where
  "child_path p key = (if p \<noteq> [] then p @ ''.'' @ key else key)"

definition per_key ::
  "'n::semiring_char_0 json \<Rightarrow> 'n json \<Rightarrow> string \<Rightarrow> string \<Rightarrow> 'n DiffResult list" where
  "per_key obj1 obj2 p key =
     (case get_prop obj1 key of
        None \<Rightarrow>
          [\<lparr>path = child_path p key, type = Added, oldValue = None,
            newValue = get_prop obj2 key\<rparr>]
      | Some val1 \<Rightarrow>
          (case get_prop obj2 key of
             None \<Rightarrow>
               [\<lparr>path = child_path p key, type = Removed, oldValue = Some val1,
                 newValue = None\<rparr>]
           | Some val2 \<Rightarrow>
               if is_object val1 \<and> is_object val2
               then compareObjects val1 val2 (child_path p key)
               else [leaf_record (child_path p key) val1 val2]))"

section \<open>Notions of the specification\<close>

text \<open>
  Exchanging the two sides of a record: \<open>Added\<close> and \<open>Removed\<close> change places,
  \<open>Modified\<close> and \<open>Equal\<close> stay, the old and the new value are exchanged.
\<close>

definition swap_sides :: "'n DiffResult \<Rightarrow> 'n DiffResult" where
  "swap_sides r =
     \<lparr>path = path r,
      type = (case type r of Added \<Rightarrow> Removed | Removed \<Rightarrow> Added
              | Modified \<Rightarrow> Modified | Equal \<Rightarrow> Equal),
      oldValue = newValue r, newValue = oldValue r\<rparr>"

text \<open>
  A decoded value is well formed when no object in it has a key twice; functions and
  prototype objects are not decoded values.
\<close>

fun wf_json :: "'n json \<Rightarrow> bool" where
  "wf_json (JArr xs) = list_all wf_json xs"
| "wf_json (JObj kvs) = (distinct (map fst kvs) \<and> list_all (\<lambda>kv. wf_json (snd kv)) kvs)"
| "wf_json (JFun pr name) = False"
| "wf_json (JProto pr) = False"
| "wf_json v = True"

text \<open>The number of terminal (non-composite) values in a value.\<close>

fun leaf_count :: "'n json \<Rightarrow> nat" where
  "leaf_count (JArr xs) = sum_list (map leaf_count xs)"
| "leaf_count (JObj kvs) = sum_list (map (\<lambda>kv. leaf_count (snd kv)) kvs)"
| "leaf_count (JProto pr) = 0"
| "leaf_count v = 1"

text \<open>
  The terminal values of a value with their paths. Below a composite the path of a
  child is the parent's path, a dot and the key (the key alone under the empty path);
  a value that is itself terminal has the given path, or \<open>root\<close> if that is empty.
\<close>

function leaves_under :: "string \<Rightarrow> 'n json \<Rightarrow> (string \<times> 'n json) list" where
  "leaves_under p v =
     concat (map (\<lambda>(key, c).
       if is_object c then leaves_under (child_path p key) c else [(child_path p key, c)])
       (own_entries v))"
  by pat_completeness auto
termination
  by (relation "measure (\<lambda>(p, v). size v)") (auto dest: size_own_entries)

declare leaves_under.simps [simp del]

definition leaves :: "string \<Rightarrow> 'n json \<Rightarrow> (string \<times> 'n json) list" where
  "leaves p v = (if is_object v then leaves_under p v else [(or_root p, v)])"

text \<open>The \<open>Equal\<close> record of a terminal value at a path.\<close>

definition equal_record :: "string \<times> 'n json \<Rightarrow> 'n DiffResult" where
  "equal_record l = \<lparr>path = fst l, type = Equal, oldValue = Some (snd l), newValue = Some (snd l)\<rparr>"

section \<open>The string highlighter\<close>

text \<open>
  The first loop of \<open>getStringDiffSpans\<close>:
  \<open>while (prefix < minLen && oldStr[prefix] === newStr[prefix]) prefix++\<close>.
\<close>

function prefix_loop :: "string \<Rightarrow> string \<Rightarrow> nat \<Rightarrow> nat \<Rightarrow> nat" where
  "prefix_loop oldStr newStr minLen prefix =
     (if prefix < minLen \<and> oldStr ! prefix = newStr ! prefix
      then prefix_loop oldStr newStr minLen (prefix + 1) else prefix)"
  by pat_completeness auto
termination
  by (relation "measure (\<lambda>(oldStr, newStr, minLen, prefix). minLen - prefix)") auto

declare prefix_loop.simps [simp del]

text \<open>
  The second loop, with \<open>bound = minLen - prefix\<close>:
  \<open>while (suffix < minLen - prefix &&
     oldStr[oldStr.length - 1 - suffix] === newStr[newStr.length - 1 - suffix]) suffix++\<close>.
  The indices are in range whenever they are read, since \<open>suffix < bound\<close> and \<open>bound\<close>
  is at most both lengths.
\<close>

function suffix_loop :: "string \<Rightarrow> string \<Rightarrow> nat \<Rightarrow> nat \<Rightarrow> nat" where
  "suffix_loop oldStr newStr bound suffix =
     (if suffix < bound \<and>
         oldStr ! (length oldStr - 1 - suffix) = newStr ! (length newStr - 1 - suffix)
      then suffix_loop oldStr newStr bound (suffix + 1) else suffix)"
  by pat_completeness auto
termination
  by (relation "measure (\<lambda>(oldStr, newStr, bound, suffix). bound - suffix)") auto

declare suffix_loop.simps [simp del]

text \<open>
  \<open>s.slice(start, end)\<close> for indices that are not negative; \<open>end = None\<close> is
  \<open>undefined\<close>, which \<open>slice\<close> reads as the length of the string.
\<close>

definition slice :: "string \<Rightarrow> nat \<Rightarrow> nat option \<Rightarrow> string" where
  "slice s start end' =
     (let len = length s;
          from = min start len;
          to = (case end' of None \<Rightarrow> len | Some e \<Rightarrow> min e len)
      in take (to - from) (drop from s))"

text \<open>\<open>n || undefined\<close> for a number \<open>n\<close>: zero is falsy.\<close>

definition or_undefined :: "nat \<Rightarrow> nat option" where
  "or_undefined n = (if n = 0 then None else Some n)"

text \<open>
  The three \<open>span\<close> children of each returned node: \<open>oldNode\<close> shows
  \<open>pre, oldMiddle, post\<close> and \<open>newNode\<close> shows \<open>pre, newMiddle, post\<close>. In
  \<open>post\<close> the source's \<open>|| ""\<close> changes nothing, the empty string being the only
  falsy string.
\<close>

record spans =
  pre :: string
  middle :: string
  post :: string

definition getStringDiffSpans :: "string \<Rightarrow> string \<Rightarrow> spans \<times> spans" where
  "getStringDiffSpans oldStr newStr =
     (let minLen = min (length oldStr) (length newStr);
          prefix = prefix_loop oldStr newStr minLen 0;
          suffix = suffix_loop oldStr newStr (minLen - prefix) 0;
          oldMiddle = slice oldStr prefix (or_undefined (length oldStr - suffix));
          newMiddle = slice newStr prefix (or_undefined (length newStr - suffix));
          pre = slice oldStr 0 (Some prefix);
          post = slice oldStr (length oldStr - suffix) None
      in (\<lparr>pre = pre, middle = oldMiddle, post = post\<rparr>,
          \<lparr>pre = pre, middle = newMiddle, post = post\<rparr>))"

text \<open>
  The values of the variables \<open>prefix\<close> and \<open>suffix\<close> after the two loops.
\<close>

definition prefixLen :: "string \<Rightarrow> string \<Rightarrow> nat" where
  "prefixLen oldStr newStr = prefix_loop oldStr newStr (min (length oldStr) (length newStr)) 0"

definition suffixLen :: "string \<Rightarrow> string \<Rightarrow> nat" where
  "suffixLen oldStr newStr =
     suffix_loop oldStr newStr
       (min (length oldStr) (length newStr) - prefixLen oldStr newStr) 0"

text \<open>The text that a node shows: its three spans one after the other.\<close>

definition shown :: "spans \<Rightarrow> string" where
  "shown n = pre n @ middle n @ post n"

section \<open>The compare handler\<close>







section \<open>Array indices as keys\<close>

lemma nat_of_string_of_nat: "nat_of_string (string_of_nat n) = n"
proof (induction n rule: string_of_nat.induct)
  case (1 n)
  show ?case
  proof (cases "n < 10")
    case True
    then show ?thesis
      by (subst string_of_nat.simps) (simp add: nat_of_string_def)
  next
    case False
    have "n mod 10 < 10" by simp
    then have d: "(48 + n mod 10) mod 256 = 48 + n mod 10" by simp
    from False 1 have "nat_of_string (string_of_nat (n div 10)) = n div 10" by simp
    with False d show ?thesis
      by (subst string_of_nat.simps) (simp add: nat_of_string_def)
  qed
qed

lemma inj_string_of_nat: "inj string_of_nat"
  by (rule inj_on_inverseI [where g = nat_of_string]) (rule nat_of_string_of_nat)

lemma string_of_nat_eq_iff [simp]: "string_of_nat m = string_of_nat n \<longleftrightarrow> m = n"
  by (simp add: inj_eq inj_string_of_nat)

lemma distinct_index_keys: "distinct (map string_of_nat [m..<n])"
  by (simp add: distinct_map inj_string_of_nat [THEN inj_on_subset])

lemma ends_in_digit_index: "ends_in_digit (string_of_nat n)"
proof -
  have "n mod 10 < 10" by simp
  then have d: "(48 + n mod 10) mod 256 = 48 + n mod 10" by simp
  show ?thesis
  proof (cases "n < 10")
    case True
    then show ?thesis by (subst string_of_nat.simps) (simp add: ends_in_digit_def)
  next
    case False
    then show ?thesis using d by (subst string_of_nat.simps) (simp add: ends_in_digit_def)
  qed
qed

lemma Object_prototype_names_no_digit:
  "k = ''__proto__'' \<or> k \<in> set Object_prototype_functions \<Longrightarrow> \<not> ends_in_digit k"
  by (auto simp: Object_prototype_functions_def ends_in_digit_def)

lemma Array_prototype_names_no_digit:
  "k = ''length'' \<or> k \<in> set Array_prototype_functions \<Longrightarrow> \<not> ends_in_digit k"
  by (auto simp: Array_prototype_functions_def ends_in_digit_def)

lemma unlisted_member_index: "unlisted_member (JArr xs) (string_of_nat i) = None"
  using ends_in_digit_index [of i]
    Object_prototype_names_no_digit [of "string_of_nat i"]
    Array_prototype_names_no_digit [of "string_of_nat i"]
  by (auto simp: Array_member_def Object_member_def)

section \<open>The key set\<close>

lemma Set_of_distinct: "distinct acc \<Longrightarrow> distinct (Set_of acc ks)"
  by (induction acc ks rule: Set_of.induct) auto

lemma Set_of_absorb: "set ks \<subseteq> set acc \<Longrightarrow> Set_of acc ks = acc"
  by (induction acc ks rule: Set_of.induct) auto

lemma Set_of_append: "Set_of acc (ks @ ls) = Set_of (Set_of acc ks) ls"
  by (induction acc ks rule: Set_of.induct) auto

lemma Set_of_fresh:
  "distinct ks \<Longrightarrow> set ks \<inter> set acc = {} \<Longrightarrow> Set_of acc ks = acc @ ks"
  by (induction acc ks rule: Set_of.induct) auto

lemma Set_of_Nil_distinct: "distinct ks \<Longrightarrow> Set_of [] ks = ks"
  using Set_of_fresh [of ks "[]"] by simp

lemma distinct_allKeys: "distinct (allKeys a b)"
  by (simp add: allKeys_def Set_of_distinct)

lemma get_prop_own: "k \<in> set (Object_keys v) \<Longrightarrow> get_prop v k \<noteq> None"
  by (auto simp: get_prop_def Object_keys_def map_of_eq_None_iff split: option.splits)

lemma get_prop_allKeys:
  "k \<in> set (allKeys a b) \<Longrightarrow> get_prop a k = None \<Longrightarrow> get_prop b k \<noteq> None"
  using get_prop_own [of k a] get_prop_own [of k b] by (auto simp: set_allKeys)

lemma Object_keys_JArr: "Object_keys (JArr xs) = map string_of_nat [0..<length xs]"
  by (simp add: Object_keys_def)

lemma allKeys_JArr:
  "allKeys (JArr xs) (JArr ys) = map string_of_nat [0..<max (length xs) (length ys)]"
proof -
  let ?m = "length xs" and ?n = "length ys"
  have a: "Set_of [] (map string_of_nat [0..<?m]) = map string_of_nat [0..<?m]"
    by (rule Set_of_Nil_distinct) (rule distinct_index_keys)
  show ?thesis
  proof (cases "?n \<le> ?m")
    case True
    then have "set (map string_of_nat [0..<?n]) \<subseteq> set (map string_of_nat [0..<?m])"
      by auto
    with True show ?thesis
      by (simp add: allKeys_def Object_keys_JArr Set_of_append a Set_of_absorb max_def)
  next
    case False
    then have le: "?m \<le> ?n" by simp
    then have split: "[0..<?n] = [0..<?m] @ [?m..<?n]"
      by (metis le_add_diff_inverse upt_add_eq_append zero_le)
    have "Set_of [] (map string_of_nat [0..<?m] @ map string_of_nat [0..<?n])
        = Set_of (map string_of_nat [0..<?m])
            (map string_of_nat [0..<?m] @ map string_of_nat [?m..<?n])"
      by (simp add: Set_of_append a split)
    also have "\<dots> = Set_of (map string_of_nat [0..<?m]) (map string_of_nat [?m..<?n])"
      by (simp add: Set_of_append Set_of_absorb)
    also have "\<dots> = map string_of_nat [0..<?m] @ map string_of_nat [?m..<?n]"
      by (rule Set_of_fresh) (auto simp: distinct_index_keys)
    finally show ?thesis using le
      by (simp add: allKeys_def Object_keys_JArr split max_def)
  qed
qed

lemma get_prop_JArr:
  "get_prop (JArr xs) (string_of_nat i) = (if i < length xs then Some (xs ! i) else None)"
proof (cases "i < length xs")
  case True
  have "map_of (zip (map string_of_nat [0..<length xs]) xs)
          (map string_of_nat [0..<length xs] ! i) = Some (xs ! i)"
    by (rule map_of_zip_nth) (simp_all add: distinct_index_keys True)
  with True show ?thesis by (simp add: get_prop_def)
next
  case False
  then have "string_of_nat i \<notin> set (map string_of_nat [0..<length xs])"
    by auto
  then have n: "map_of (zip (map string_of_nat [0..<length xs]) xs) (string_of_nat i) = None"
    by (simp add: map_of_zip_is_None)
  from False show ?thesis
    by (simp add: get_prop_def n unlisted_member_index del: unlisted_member.simps)
qed

lemma compareObjects_JArr:
  "compareObjects (JArr xs) (JArr ys) p =
     concat (map (\<lambda>i.
       let newPath = (if p \<noteq> [] then p @ ''.'' @ string_of_nat i else string_of_nat i) in
       if length xs \<le> i then
         [\<lparr>path = newPath, type = Added, oldValue = None, newValue = Some (ys ! i)\<rparr>]
       else if length ys \<le> i then
         [\<lparr>path = newPath, type = Removed, oldValue = Some (xs ! i), newValue = None\<rparr>]
       else if is_object (xs ! i) \<and> is_object (ys ! i) then
         compareObjects (xs ! i) (ys ! i) newPath
       else [leaf_record newPath (xs ! i) (ys ! i)])
     [0..<max (length xs) (length ys)])"
  apply (subst compareObjects.simps)
  apply (simp add: allKeys_JArr get_prop_JArr comp_def Let_def del: upt_conv_Cons cong: map_cong)
  apply (rule arg_cong [where f = concat])
  apply (rule map_cong [OF refl])
  apply (auto simp: Let_def get_prop_JArr)
  done

section \<open>Unfolding the differ\<close>

lemmas differ_eval =
  compareObjects.simps allKeys_def Object_keys_def get_prop_def leaf_record_def or_root_def
  Object_member_def Array_member_def Object_prototype_functions_def
  Array_prototype_functions_def

lemma compareObjects_unfold:
  "compareObjects obj1 obj2 p =
     (if \<not> (is_object obj1 \<and> is_object obj2) then [leaf_record (or_root p) obj1 obj2]
      else concat (map (per_key obj1 obj2 p) (allKeys obj1 obj2)))"
  apply (subst compareObjects.simps)
  apply (unfold per_key_def child_path_def Let_def)
  apply (rule refl)
  done

lemma strict_eq_sym: "strict_eq a b = strict_eq b a"
  by (induction a b rule: strict_eq.induct) auto

lemma strict_eq_iff: "\<not> (is_object a \<and> is_object b) \<Longrightarrow> strict_eq a b \<longleftrightarrow> a = b"
  by (induction a b rule: strict_eq.induct) auto

lemma swap_leaf_record: "swap_sides (leaf_record q a b) = leaf_record q b a"
  by (simp add: swap_sides_def leaf_record_def strict_eq_sym [of a b])

lemma mset_concat_map_cong:
  "(\<And>k. k \<in> set ks \<Longrightarrow> mset (g k) = mset (f k))
     \<Longrightarrow> mset (concat (map g ks)) = mset (concat (map f ks))"
  by (induction ks) simp_all

lemma mset_concat_map_perm:
  "mset ks = mset ks' \<Longrightarrow> mset (concat (map f ks)) = mset (concat (map f ks'))"
proof -
  assume e: "mset ks = mset ks'"
  have "mset (concat (map f xs)) = \<Sum>\<^sub># (image_mset (\<lambda>k. mset (f k)) (mset xs))" for xs
    by (induction xs) simp_all
  with e show ?thesis by simp
qed

lemma mset_allKeys_swap: "mset (allKeys b a) = mset (allKeys a b)"
proof -
  have "set (allKeys b a) = set (allKeys a b)" by (auto simp: set_allKeys)
  then show ?thesis
    using set_eq_iff_mset_eq_distinct [OF distinct_allKeys distinct_allKeys] by blast
qed


text \<open>
  C5. Exchanging the two arguments exchanges the two sides of every record: the records
  of \<open>compareObjects b a p\<close> are, up to their order in the list, those of
  \<open>compareObjects a b p\<close> with \<open>Added\<close> and \<open>Removed\<close> exchanged, \<open>Modified\<close> and
  \<open>Equal\<close> kept, the path kept, and the old and the new value exchanged.
\<close>

theorem compare_swap:
  "mset (compareObjects b a p) = image_mset swap_sides (mset (compareObjects a b p))"
proof (induction a b p rule: compareObjects.induct)
  case (1 obj1 obj2 p)
  show ?case
  proof (cases "is_object obj1 \<and> is_object obj2")
    case False
    then show ?thesis
      by (auto simp: compareObjects_unfold [of obj1 obj2] compareObjects_unfold [of obj2 obj1]
            swap_leaf_record)
  next
    case True
    have pt: "mset (per_key obj2 obj1 p k) = mset (map swap_sides (per_key obj1 obj2 p k))"
      if k: "k \<in> set (allKeys obj1 obj2)" for k
    proof (cases "get_prop obj1 k")
      case None
      from get_prop_allKeys [OF k None] obtain v2 where "get_prop obj2 k = Some v2"
        by blast
      with None show ?thesis by (simp add: per_key_def swap_sides_def)
    next
      case (Some v1)
      show ?thesis
      proof (cases "get_prop obj2 k")
        case None
        with Some show ?thesis by (simp add: per_key_def swap_sides_def)
      next
        case v2: (Some v2)
        show ?thesis
        proof (cases "is_object v1 \<and> is_object v2")
          case both: True
          have "mset (compareObjects v2 v1 (child_path p k))
                  = image_mset swap_sides (mset (compareObjects v1 v2 (child_path p k)))"
            using True k Some v2 both
            by (intro "1.IH" [of k "child_path p k" v1 v2]) (simp_all add: child_path_def)
          with Some v2 both show ?thesis by (simp add: per_key_def)
        next
          case False
          with Some v2 show ?thesis by (auto simp: per_key_def swap_leaf_record)
        qed
      qed
    qed
    have "mset (compareObjects obj2 obj1 p)
            = mset (concat (map (per_key obj2 obj1 p) (allKeys obj2 obj1)))"
      using True by (simp add: compareObjects_unfold [of obj2 obj1])
    also have "\<dots> = mset (concat (map (per_key obj2 obj1 p) (allKeys obj1 obj2)))"
      by (rule mset_concat_map_perm) (rule mset_allKeys_swap)
    also have "\<dots> = mset (concat (map (\<lambda>k. map swap_sides (per_key obj1 obj2 p k))
                                      (allKeys obj1 obj2)))"
      by (rule mset_concat_map_cong) (rule pt)
    also have "\<dots> = image_mset swap_sides
                        (mset (concat (map (per_key obj1 obj2 p) (allKeys obj1 obj2))))"
      by (simp add: map_concat comp_def flip: mset_map)
    also have "\<dots> = image_mset swap_sides (mset (compareObjects obj1 obj2 p))"
      using True by (simp add: compareObjects_unfold [of obj1 obj2])
    finally show ?thesis .
  qed
qed

lemma added_removed_detection:
  "compareObjects (JObj [(''x'', JNum (1::int))]) (JObj [(''x'', JNum 1), (''y'', JNum 2)]) []
     = [\<lparr>path = ''x'', type = Equal, oldValue = Some (JNum 1), newValue = Some (JNum 1)\<rparr>,
        \<lparr>path = ''y'', type = Added, oldValue = None, newValue = Some (JNum 2)\<rparr>]"
  "compareObjects (JObj [(''x'', JNum 1), (''y'', JNum 2)]) (JObj [(''x'', JNum (1::int))]) []
     = [\<lparr>path = ''x'', type = Equal, oldValue = Some (JNum 1), newValue = Some (JNum 1)\<rparr>,
        \<lparr>path = ''y'', type = Removed, oldValue = Some (JNum 2), newValue = None\<rparr>]"
  by (simp_all add: differ_eval)

text \<open>
  A key that only one side lists but that the other side has all the same, inherited
  or as the \<open>length\<close> of an array, takes the branch for a key of both sides; a key
  that the other side does not have at all gives \<open>Removed\<close> or \<open>Added\<close>.
\<close>

lemma inherited_member_examples:
  "compareObjects (JObj [(''toString'', JNum (1::int))]) (JObj []) []
     = [\<lparr>path = ''toString'', type = Modified, oldValue = Some (JNum 1),
         newValue = Some (JFun ObjectPrototype ''toString'')\<rparr>]"
  "compareObjects (JObj []) (JObj [(''toString'', JNum (1::int))]) []
     = [\<lparr>path = ''toString'', type = Modified,
         oldValue = Some (JFun ObjectPrototype ''toString''), newValue = Some (JNum 1)\<rparr>]"
  "compareObjects (JObj [(''length'', JNum (1::int))]) (JArr [JNum 1]) []
     = [\<lparr>path = ''length'', type = Equal, oldValue = Some (JNum 1), newValue = Some (JNum 1)\<rparr>,
        \<lparr>path = ''0'', type = Added, oldValue = None, newValue = Some (JNum 1)\<rparr>]"
  "compareObjects (JObj [(''__proto__'', JObj [(''a'', JNum (1::int))])]) (JObj []) []
     = [\<lparr>path = ''__proto__.a'', type = Removed, oldValue = Some (JNum 1), newValue = None\<rparr>]"
  "compareObjects (JObj [(''x'', JNum (1::int))]) (JObj []) []
     = [\<lparr>path = ''x'', type = Removed, oldValue = Some (JNum 1), newValue = None\<rparr>]"
  by code_simp+

section \<open>The kinds and the values of the records\<close>

lemma leaf_record_invariant:
  "\<not> (is_object a \<and> is_object b) \<Longrightarrow>
     (type (leaf_record q a b) = Equal \<longrightarrow> a = b) \<and>
     (type (leaf_record q a b) = Modified \<longrightarrow> a \<noteq> b) \<and>
     type (leaf_record q a b) \<in> {Equal, Modified} \<and>
     oldValue (leaf_record q a b) = Some a \<and> newValue (leaf_record q a b) = Some b"
  by (simp add: leaf_record_def strict_eq_iff)

lemma nth_of_types:
  "map type xs = ts \<Longrightarrow> i < length ts \<Longrightarrow> xs ! i \<in> set xs \<and> type (xs ! i) = ts ! i"
  by (metis length_map nth_map nth_mem)

text \<open>
  C2. Every record that \<open>compareObjects\<close> returns fits its kind: an \<open>Equal\<close> record
  has both values and they are equal, a \<open>Modified\<close> record has both values and they
  differ, an \<open>Added\<close> record has no old value and a \<open>Removed\<close> record no new value.
\<close>

theorem kind_value_invariant:
  "r \<in> set (compareObjects a b p) \<Longrightarrow>
     (type r = Equal \<longrightarrow> oldValue r \<noteq> None \<and> oldValue r = newValue r) \<and>
     (type r = Modified \<longrightarrow> oldValue r \<noteq> None \<and> newValue r \<noteq> None \<and> oldValue r \<noteq> newValue r) \<and>
     (type r = Added \<longrightarrow> oldValue r = None \<and> newValue r \<noteq> None) \<and>
     (type r = Removed \<longrightarrow> oldValue r \<noteq> None \<and> newValue r = None)"
proof (induction a b p arbitrary: r rule: compareObjects.induct)
  case (1 obj1 obj2 p)
  show ?case
  proof (cases "is_object obj1 \<and> is_object obj2")
    case False
    with "1.prems" have "r = leaf_record (or_root p) obj1 obj2"
      by (simp add: compareObjects_unfold [of obj1 obj2])
    with leaf_record_invariant [OF False, of "or_root p"] show ?thesis by auto
  next
    case True
    with "1.prems" obtain k where k: "k \<in> set (allKeys obj1 obj2)"
      and r: "r \<in> set (per_key obj1 obj2 p k)"
      by (auto simp: compareObjects_unfold [of obj1 obj2])
    show ?thesis
    proof (cases "get_prop obj1 k")
      case None
      from get_prop_allKeys [OF k None] have "get_prop obj2 k \<noteq> None" .
      with None r show ?thesis by (auto simp: per_key_def)
    next
      case (Some v1)
      show ?thesis
      proof (cases "get_prop obj2 k")
        case None
        with Some r show ?thesis by (auto simp: per_key_def)
      next
        case v2: (Some v2)
        show ?thesis
        proof (cases "is_object v1 \<and> is_object v2")
          case both: True
          with Some v2 r have "r \<in> set (compareObjects v1 v2 (child_path p k))"
            by (simp add: per_key_def)
          with True k Some v2 both show ?thesis
            by (intro "1.IH" [of k "child_path p k" v1 v2 r]) (simp_all add: child_path_def)
        next
          case False
          with Some v2 r have "r = leaf_record (child_path p k) v1 v2"
            by (auto simp: per_key_def)
          with leaf_record_invariant [OF False, of "child_path p k"] show ?thesis by auto
        qed
      qed
    qed
  qed
qed


theorem kind_value_invariant_witness:
  "map type (compareObjects (JObj [(''x'', JNum (1::int)), (''w'', JNum 1), (''z'', JNum 3)])
          (JObj [(''x'', JNum 1), (''w'', JNum 5), (''y'', JNum 2)]) [])
     = [Equal, Modified, Removed, Added]
   \<and> oldValue ((compareObjects (JObj [(''x'', JNum (1::int)), (''w'', JNum 1), (''z'', JNum 3)])
          (JObj [(''x'', JNum 1), (''w'', JNum 5), (''y'', JNum 2)]) []) ! 0)
     = newValue ((compareObjects (JObj [(''x'', JNum (1::int)), (''w'', JNum 1), (''z'', JNum 3)])
          (JObj [(''x'', JNum 1), (''w'', JNum 5), (''y'', JNum 2)]) []) ! 0)
   \<and> oldValue ((compareObjects (JObj [(''x'', JNum (1::int)), (''w'', JNum 1), (''z'', JNum 3)])
          (JObj [(''x'', JNum 1), (''w'', JNum 5), (''y'', JNum 2)]) []) ! 1)
     \<noteq> newValue ((compareObjects (JObj [(''x'', JNum (1::int)), (''w'', JNum 1), (''z'', JNum 3)])
          (JObj [(''x'', JNum 1), (''w'', JNum 5), (''y'', JNum 2)]) []) ! 1)
   \<and> newValue ((compareObjects (JObj [(''x'', JNum (1::int)), (''w'', JNum 1), (''z'', JNum 3)])
          (JObj [(''x'', JNum 1), (''w'', JNum 5), (''y'', JNum 2)]) []) ! 2) = None
   \<and> oldValue ((compareObjects (JObj [(''x'', JNum (1::int)), (''w'', JNum 1), (''z'', JNum 3)])
          (JObj [(''x'', JNum 1), (''w'', JNum 5), (''y'', JNum 2)]) []) ! 3) = None"
proof -
  let ?a = "JObj [(''x'', JNum (1::int)), (''w'', JNum 1), (''z'', JNum 3)]"
  let ?b = "JObj [(''x'', JNum 1), (''w'', JNum 5), (''y'', JNum 2)]"
  have t: "map type (compareObjects ?a ?b []) = [Equal, Modified, Removed, Added]"
    by (simp add: differ_eval)
  have h0: "compareObjects ?a ?b [] ! 0 \<in> set (compareObjects ?a ?b [])
            \<and> type (compareObjects ?a ?b [] ! 0) = [Equal, Modified, Removed, Added] ! 0"
    by (rule nth_of_types [OF t]) simp
  have h1: "compareObjects ?a ?b [] ! 1 \<in> set (compareObjects ?a ?b [])
            \<and> type (compareObjects ?a ?b [] ! 1) = [Equal, Modified, Removed, Added] ! 1"
    by (rule nth_of_types [OF t]) simp
  have h2: "compareObjects ?a ?b [] ! 2 \<in> set (compareObjects ?a ?b [])
            \<and> type (compareObjects ?a ?b [] ! 2) = [Equal, Modified, Removed, Added] ! 2"
    by (rule nth_of_types [OF t]) simp
  have h3: "compareObjects ?a ?b [] ! 3 \<in> set (compareObjects ?a ?b [])
            \<and> type (compareObjects ?a ?b [] ! 3) = [Equal, Modified, Removed, Added] ! 3"
    by (rule nth_of_types [OF t]) simp
  from kind_value_invariant [OF conjunct1 [OF h0]] conjunct2 [OF h0]
  have c0: "oldValue (compareObjects ?a ?b [] ! 0) = newValue (compareObjects ?a ?b [] ! 0)"
    by simp
  from kind_value_invariant [OF conjunct1 [OF h1]] conjunct2 [OF h1]
  have c1: "oldValue (compareObjects ?a ?b [] ! 1) \<noteq> newValue (compareObjects ?a ?b [] ! 1)"
    by simp
  from kind_value_invariant [OF conjunct1 [OF h2]] conjunct2 [OF h2]
  have c2: "newValue (compareObjects ?a ?b [] ! 2) = None"
    by simp
  from kind_value_invariant [OF conjunct1 [OF h3]] conjunct2 [OF h3]
  have c3: "oldValue (compareObjects ?a ?b [] ! 3) = None"
    by simp
  from t c0 c1 c2 c3 show ?thesis by blast
qed

section \<open>Comparing a value with itself\<close>

lemma wf_json_entries:
  "wf_json v \<Longrightarrow> (k, c) \<in> set (own_entries v) \<Longrightarrow> wf_json c"
  by (cases v) (auto simp: list_all_iff dest: set_zip_rightD)

lemma distinct_Object_keys: "wf_json v \<Longrightarrow> distinct (Object_keys v)"
  by (cases v) (simp_all add: Object_keys_def distinct_index_keys)

lemma allKeys_same: "wf_json v \<Longrightarrow> allKeys v v = Object_keys v"
  by (simp add: allKeys_def Set_of_append Set_of_Nil_distinct Set_of_absorb
        distinct_Object_keys)

lemma get_prop_entry:
  "wf_json v \<Longrightarrow> (k, c) \<in> set (own_entries v) \<Longrightarrow> get_prop v k = Some c"
  using distinct_Object_keys [of v] by (simp add: get_prop_def Object_keys_def)

lemma leaf_record_same:
  "\<not> is_object c \<Longrightarrow> leaf_record q c c = equal_record (q, c)"
  by (simp add: leaf_record_def equal_record_def strict_eq_iff)

lemma per_key_same:
  assumes "wf_json v" and "(k, c) \<in> set (own_entries v)"
  shows "per_key v v p k =
           (if is_object c then compareObjects c c (child_path p k)
            else [equal_record (child_path p k, c)])"
  using get_prop_entry [OF assms] by (simp add: per_key_def leaf_record_same)

lemma compare_same_composite:
  "wf_json v \<Longrightarrow> is_object v \<Longrightarrow> compareObjects v v p = map equal_record (leaves_under p v)"
proof (induction p v rule: leaves_under.induct)
  case (1 p v)
  have "compareObjects v v p = concat (map (per_key v v p) (map fst (own_entries v)))"
    using "1.prems" by (simp add: compareObjects_unfold [of v v] allKeys_same Object_keys_def)
  also have "\<dots> = concat (map (\<lambda>kc. per_key v v p (fst kc)) (own_entries v))"
    by (simp add: comp_def)
  also have "\<dots> = concat (map (\<lambda>kc. map equal_record
        (if is_object (snd kc) then leaves_under (child_path p (fst kc)) (snd kc)
         else [(child_path p (fst kc), snd kc)])) (own_entries v))"
  proof (rule arg_cong [where f = concat], rule map_cong [OF refl])
    fix kc assume m: "kc \<in> set (own_entries v)"
    obtain k c where kc: "kc = (k, c)" by (cases kc)
    from m kc have e: "(k, c) \<in> set (own_entries v)" by simp
    have w: "wf_json c" using "1.prems"(1) e by (rule wf_json_entries)
    show "per_key v v p (fst kc) = map equal_record
        (if is_object (snd kc) then leaves_under (child_path p (fst kc)) (snd kc)
         else [(child_path p (fst kc), snd kc)])"
    proof (cases "is_object c")
      case True
      from "1.IH" [OF e refl True w True] True kc show ?thesis
        by (simp add: per_key_same [OF "1.prems"(1) e])
    next
      case False
      with kc show ?thesis by (simp add: per_key_same [OF "1.prems"(1) e])
    qed
  qed
  also have "\<dots> = map equal_record (leaves_under p v)"
    by (subst leaves_under.simps [of p v]) (simp add: map_concat comp_def case_prod_beta)
  finally show ?case .
qed

lemma leaf_count_entries:
  "is_object v \<Longrightarrow> leaf_count v = sum_list (map (\<lambda>kc. leaf_count (snd kc)) (own_entries v))"
proof (cases v)
  case (JArr xs)
  have "map (\<lambda>kc. leaf_count (snd kc)) (zip ks xs) = map leaf_count xs"
    if "length ks = length xs" for ks :: "string list"
    using that by (induction ks xs rule: list_induct2) simp_all
  with JArr show ?thesis by simp
qed simp_all

lemma length_leaves_under:
  "is_object v \<Longrightarrow> length (leaves_under p v) = leaf_count v"
proof (induction p v rule: leaves_under.induct)
  case (1 p v)
  have "length (leaves_under p v)
          = sum_list (map (\<lambda>kc. length (if is_object (snd kc)
                then leaves_under (child_path p (fst kc)) (snd kc)
                else [(child_path p (fst kc), snd kc)])) (own_entries v))"
    by (subst leaves_under.simps [of p v]) (simp add: length_concat comp_def case_prod_beta)
  also have "\<dots> = sum_list (map (\<lambda>kc. leaf_count (snd kc)) (own_entries v))"
  proof (rule arg_cong [where f = sum_list], rule map_cong [OF refl])
    fix kc assume m: "kc \<in> set (own_entries v)"
    obtain k c where kc: "kc = (k, c)" by (cases kc)
    from m kc have e: "(k, c) \<in> set (own_entries v)" by simp
    show "length (if is_object (snd kc)
                then leaves_under (child_path p (fst kc)) (snd kc)
                else [(child_path p (fst kc), snd kc)]) = leaf_count (snd kc)"
    proof (cases "is_object c")
      case True
      from "1.IH" [OF e refl True True] True kc show ?thesis by simp
    next
      case False
      with kc show ?thesis by (cases c) simp_all
    qed
  qed
  also have "\<dots> = leaf_count v" using "1.prems" by (simp add: leaf_count_entries)
  finally show ?case .
qed

lemma length_leaves: "length (leaves p v) = leaf_count v"
  by (cases "is_object v") (simp_all add: leaves_def length_leaves_under, cases v, simp_all)

lemma leaves_under_not_object:
  "(q, x) \<in> set (leaves_under p v) \<Longrightarrow> \<not> is_object x"
proof (induction p v arbitrary: q x rule: leaves_under.induct)
  case (1 p v)
  from "1.prems" obtain k c where e: "(k, c) \<in> set (own_entries v)"
    and m: "(q, x) \<in> set (if is_object c then leaves_under (child_path p k) c
                             else [(child_path p k, c)])"
    by (subst (asm) leaves_under.simps) auto
  show ?case
  proof (cases "is_object c")
    case True
    with m "1.IH" [OF e refl True] show ?thesis by simp
  next
    case False
    with m show ?thesis by simp
  qed
qed

text \<open>
  C4. Comparing a well-formed value with itself gives the \<open>Equal\<close> records of its
  terminal values, one for each and in their order, each at the path of the terminal
  value and holding it on both sides; so every record is \<open>Equal\<close>, and there are as
  many records as terminal values. A value that is itself terminal gives the one
  record at the path \<open>root\<close>.
\<close>

theorem compare_reflexive:
  "wf_json v \<Longrightarrow>
     compareObjects v v p = map equal_record (leaves p v)
     \<and> length (compareObjects v v p) = leaf_count v
     \<and> (\<forall>r \<in> set (compareObjects v v p). type r = Equal \<and> oldValue r = newValue r)
     \<and> (\<not> is_object v \<longrightarrow> compareObjects v v [] = [equal_record (''root'', v)])"
proof -
  assume w: "wf_json v"
  have a: "compareObjects v v q = map equal_record (leaves q v)" for q
  proof (cases "is_object v")
    case True
    with w show ?thesis by (simp add: leaves_def compare_same_composite)
  next
    case False
    then show ?thesis
      by (simp add: compareObjects_unfold [of v v] leaves_def leaf_record_same)
  qed
  have b: "length (compareObjects v v p) = leaf_count v"
    by (simp add: a length_leaves)
  have c: "\<forall>r \<in> set (compareObjects v v p). type r = Equal \<and> oldValue r = newValue r"
    by (auto simp: a equal_record_def)
  have d: "\<not> is_object v \<longrightarrow> compareObjects v v [] = [equal_record (''root'', v)]"
    by (simp add: a leaves_def or_root_def)
  from a b c d show ?thesis by blast
qed

theorem compare_reflexive_witness:
  "wf_json (JObj [(''a'', JArr [JNum (1::int), JStr ''s'']), (''b'', JNull), (''c'', JObj [])])
   \<and> compareObjects (JObj [(''a'', JArr [JNum (1::int), JStr ''s'']), (''b'', JNull), (''c'', JObj [])])
                    (JObj [(''a'', JArr [JNum (1::int), JStr ''s'']), (''b'', JNull), (''c'', JObj [])]) []
     = [\<lparr>path = ''a.0'', type = Equal, oldValue = Some (JNum 1), newValue = Some (JNum 1)\<rparr>,
        \<lparr>path = ''a.1'', type = Equal, oldValue = Some (JStr ''s''),
         newValue = Some (JStr ''s'')\<rparr>,
        \<lparr>path = ''b'', type = Equal, oldValue = Some JNull, newValue = Some JNull\<rparr>]
   \<and> leaf_count (JObj [(''a'', JArr [JNum (1::int), JStr ''s'']), (''b'', JNull), (''c'', JObj [])]) = 3
   \<and> compareObjects (JStr ''s'' :: int json) (JStr ''s'') []
       = [\<lparr>path = ''root'', type = Equal, oldValue = Some (JStr ''s''),
           newValue = Some (JStr ''s'')\<rparr>]"
proof -
  let ?v = "JObj [(''a'', JArr [JNum (1::int), JStr ''s'']), (''b'', JNull), (''c'', JObj [])]"
  have w: "wf_json ?v" by simp
  from compare_reflexive [OF w, of "[]"]
  have "compareObjects ?v ?v [] = map equal_record (leaves [] ?v)"
    by blast
  also have "\<dots> = [\<lparr>path = ''a.0'', type = Equal, oldValue = Some (JNum 1), newValue = Some (JNum 1)\<rparr>,
        \<lparr>path = ''a.1'', type = Equal, oldValue = Some (JStr ''s''),
         newValue = Some (JStr ''s'')\<rparr>,
        \<lparr>path = ''b'', type = Equal, oldValue = Some JNull, newValue = Some JNull\<rparr>]"
    by code_simp
  finally have r: "compareObjects ?v ?v []
     = [\<lparr>path = ''a.0'', type = Equal, oldValue = Some (JNum 1), newValue = Some (JNum 1)\<rparr>,
        \<lparr>path = ''a.1'', type = Equal, oldValue = Some (JStr ''s''),
         newValue = Some (JStr ''s'')\<rparr>,
        \<lparr>path = ''b'', type = Equal, oldValue = Some JNull, newValue = Some JNull\<rparr>]" .
  have l: "leaf_count ?v = 3" by simp
  have "wf_json (JStr ''s'' :: int json)" by simp
  from compare_reflexive [OF this, of "[]"]
  have "\<not> is_object (JStr ''s'' :: int json) \<longrightarrow>
          compareObjects (JStr ''s'' :: int json) (JStr ''s'') []
            = [equal_record (''root'', JStr ''s'')]"
    by blast
  then have s: "compareObjects (JStr ''s'' :: int json) (JStr ''s'') []
       = [\<lparr>path = ''root'', type = Equal, oldValue = Some (JStr ''s''),
           newValue = Some (JStr ''s'')\<rparr>]"
    by (simp add: equal_record_def)
  from w r l s show ?thesis by simp
qed

section \<open>Evaluating the differ on the documented examples\<close>

text \<open>
  C7. A number against an object under the same key is one \<open>Modified\<close> record at that
  key, holding the number and the whole object; the keys inside the object get no
  record.
\<close>

theorem type_mismatch_is_modified:
  "compareObjects (JObj [(''a'', JNum (1::int))]) (JObj [(''a'', JObj [(''b'', JNum 1)])]) []
     = [\<lparr>path = ''a'', type = Modified, oldValue = Some (JNum 1),
         newValue = Some (JObj [(''b'', JNum 1)])\<rparr>]"
  by (simp add: differ_eval)

text \<open>
  C8. For \<open>{"a": {"b": 1}}\<close> against \<open>{"a": {"b": 2}}\<close> the differ returns one record
  and no other: \<open>Modified\<close> at the path \<open>a.b\<close> with old value 1 and new value 2.
\<close>

theorem nested_path_is_dot_joined:
  "compareObjects (JObj [(''a'', JObj [(''b'', JNum (1::int))])])
                  (JObj [(''a'', JObj [(''b'', JNum 2)])]) []
     = [\<lparr>path = ''a.b'', type = Modified, oldValue = Some (JNum 1),
         newValue = Some (JNum 2)\<rparr>]"
  by (simp add: differ_eval)

text \<open>
  C9. Two arrays are compared index by index, the decimal index being the key: an index
  that only the new array has gives an \<open>Added\<close> record, one that only the old array has
  a \<open>Removed\<close> record, and an index of both gives what the two elements give under
  that key. No record relates an element to another index. In particular \<open>[1,2]\<close>
  against \<open>[2,1]\<close> gives two \<open>Modified\<close> records, at the paths \<open>0\<close> and \<open>1\<close>.
\<close>

theorem arrays_compared_by_index:
  "compareObjects (JArr xs) (JArr ys) p =
     concat (map (\<lambda>i.
       let newPath = (if p \<noteq> [] then p @ ''.'' @ string_of_nat i else string_of_nat i) in
       if length xs \<le> i then
         [\<lparr>path = newPath, type = Added, oldValue = None, newValue = Some (ys ! i)\<rparr>]
       else if length ys \<le> i then
         [\<lparr>path = newPath, type = Removed, oldValue = Some (xs ! i), newValue = None\<rparr>]
       else if is_object (xs ! i) \<and> is_object (ys ! i) then
         compareObjects (xs ! i) (ys ! i) newPath
       else [leaf_record newPath (xs ! i) (ys ! i)])
     [0..<max (length xs) (length ys)])
   \<and> compareObjects (JArr [JNum (1::int), JNum 2]) (JArr [JNum 2, JNum 1]) []
     = [\<lparr>path = ''0'', type = Modified, oldValue = Some (JNum 1), newValue = Some (JNum 2)\<rparr>,
        \<lparr>path = ''1'', type = Modified, oldValue = Some (JNum 2), newValue = Some (JNum 1)\<rparr>]"
proof
  show "compareObjects (JArr [JNum (1::int), JNum 2]) (JArr [JNum 2, JNum 1]) []
     = [\<lparr>path = ''0'', type = Modified, oldValue = Some (JNum 1), newValue = Some (JNum 2)\<rparr>,
        \<lparr>path = ''1'', type = Modified, oldValue = Some (JNum 2), newValue = Some (JNum 1)\<rparr>]"
    by code_simp
qed (rule compareObjects_JArr)

text \<open>
  C10. Two composites that both have no keys give no record at all, at the root and
  under any path that the recursion reaches them with.
\<close>

theorem empty_composites_no_record:
  "is_object a \<Longrightarrow> is_object b \<Longrightarrow> Object_keys a = [] \<Longrightarrow> Object_keys b = []
     \<Longrightarrow> compareObjects a b p = []"
  by (subst compareObjects.simps) (simp add: allKeys_def)

theorem empty_composites_no_record_witness:
  "is_object (JObj [] :: int json) \<and> Object_keys (JObj [] :: int json) = []
   \<and> is_object (JArr [] :: int json) \<and> Object_keys (JArr [] :: int json) = []
   \<and> compareObjects (JObj []) (JObj []) [] = ([] :: int DiffResult list)
   \<and> compareObjects (JArr []) (JArr []) [] = ([] :: int DiffResult list)
   \<and> compareObjects (JObj []) (JArr []) ''a.b'' = ([] :: int DiffResult list)"
  using empty_composites_no_record [of "JObj [] :: int json" "JObj []" "[]"]
        empty_composites_no_record [of "JArr [] :: int json" "JArr []" "[]"]
        empty_composites_no_record [of "JObj [] :: int json" "JArr []" "''a.b''"]
  by (simp add: Object_keys_def)

lemma nested_empty_composites_no_record:
  "compareObjects (JObj [(''a'', JObj []), (''b'', JArr [])])
                  (JObj [(''a'', JObj []), (''b'', JArr [])]) [] = ([] :: int DiffResult list)"
  by (simp add: differ_eval)

section \<open>The two loops of the highlighter\<close>

text \<open>
  The first loop stops at the length of the longest common prefix and the second at
  the length of the longest common suffix that leaves the prefix alone.
\<close>

lemma prefix_loop_le: "p \<le> m \<Longrightarrow> prefix_loop old new m p \<le> m"
  by (induction old new m p rule: prefix_loop.induct) (subst prefix_loop.simps, simp)

lemma prefix_loop_match:
  "(\<And>i. i < p \<Longrightarrow> old ! i = new ! i) \<Longrightarrow> i < prefix_loop old new m p
     \<Longrightarrow> old ! i = new ! i"
proof (induction old new m p rule: prefix_loop.induct)
  case (1 old new m p)
  show ?case
  proof (cases "p < m \<and> old ! p = new ! p")
    case True
    have "j < p + 1 \<Longrightarrow> old ! j = new ! j" for j
      using True "1.prems"(1) [of j] by (cases "j = p") simp_all
    moreover from True "1.prems"(2) have "i < prefix_loop old new m (p + 1)"
      by (subst (asm) prefix_loop.simps) simp
    ultimately show ?thesis using "1.IH" [OF True] by blast
  next
    case False
    with "1.prems"(2) have "i < p" by (subst (asm) prefix_loop.simps) auto
    then show ?thesis by (rule "1.prems"(1))
  qed
qed

lemma prefix_loop_stop:
  "prefix_loop old new m p < m \<Longrightarrow>
     old ! prefix_loop old new m p \<noteq> new ! prefix_loop old new m p"
proof (induction old new m p rule: prefix_loop.induct)
  case (1 old new m p)
  show ?case
  proof (cases "p < m \<and> old ! p = new ! p")
    case True
    then have e: "prefix_loop old new m p = prefix_loop old new m (p + 1)"
      by (subst prefix_loop.simps) simp
    with "1.IH" [OF True] "1.prems" show ?thesis by simp
  next
    case False
    then have e: "prefix_loop old new m p = p" by (subst prefix_loop.simps) auto
    with False "1.prems" show ?thesis by auto
  qed
qed

lemma suffix_loop_le: "s \<le> b \<Longrightarrow> suffix_loop old new b s \<le> b"
  by (induction old new b s rule: suffix_loop.induct) (subst suffix_loop.simps, simp)

lemma suffix_loop_match:
  "(\<And>j. j < s \<Longrightarrow> old ! (length old - 1 - j) = new ! (length new - 1 - j))
     \<Longrightarrow> j < suffix_loop old new b s
     \<Longrightarrow> old ! (length old - 1 - j) = new ! (length new - 1 - j)"
proof (induction old new b s rule: suffix_loop.induct)
  case (1 old new b s)
  let ?c = "s < b \<and> old ! (length old - 1 - s) = new ! (length new - 1 - s)"
  show ?case
  proof (cases ?c)
    case True
    have "i < s + 1 \<Longrightarrow> old ! (length old - 1 - i) = new ! (length new - 1 - i)" for i
      using True "1.prems"(1) [of i] by (cases "i = s") simp_all
    moreover from True "1.prems"(2) have "j < suffix_loop old new b (s + 1)"
      by (subst (asm) suffix_loop.simps) simp
    ultimately show ?thesis using "1.IH" [OF True] by blast
  next
    case False
    with "1.prems"(2) have "j < s" by (subst (asm) suffix_loop.simps) auto
    then show ?thesis by (rule "1.prems"(1))
  qed
qed

lemma suffix_loop_stop:
  "suffix_loop old new b s < b \<Longrightarrow>
     old ! (length old - 1 - suffix_loop old new b s)
       \<noteq> new ! (length new - 1 - suffix_loop old new b s)"
proof (induction old new b s rule: suffix_loop.induct)
  case (1 old new b s)
  let ?c = "s < b \<and> old ! (length old - 1 - s) = new ! (length new - 1 - s)"
  show ?case
  proof (cases ?c)
    case True
    then have e: "suffix_loop old new b s = suffix_loop old new b (s + 1)"
      by (subst suffix_loop.simps) simp
    with "1.IH" [OF True] "1.prems" show ?thesis by simp
  next
    case False
    then have e: "suffix_loop old new b s = s" by (subst suffix_loop.simps) auto
    with False "1.prems" show ?thesis by auto
  qed
qed

lemma prefixLen_le: "prefixLen old new \<le> min (length old) (length new)"
  unfolding prefixLen_def by (rule prefix_loop_le) simp

lemma prefixLen_common: "take (prefixLen old new) old = take (prefixLen old new) new"
proof (rule nth_take_lemma)
  show "prefixLen old new \<le> length old" "prefixLen old new \<le> length new"
    using prefixLen_le [of old new] by simp_all
  have "old ! i = new ! i" if "i < prefixLen old new" for i
    using that unfolding prefixLen_def by (rule prefix_loop_match [rotated]) simp
  then show "i < prefixLen old new \<longrightarrow> old ! i = new ! i" for i by blast
qed

lemma prefixLen_greatest:
  assumes "n \<le> min (length old) (length new)" and "take n old = take n new"
  shows "n \<le> prefixLen old new"
proof (rule ccontr)
  assume "\<not> n \<le> prefixLen old new"
  then have l: "prefixLen old new < n" by simp
  with assms(1) have "prefixLen old new < min (length old) (length new)" by simp
  then have "old ! prefixLen old new \<noteq> new ! prefixLen old new"
    unfolding prefixLen_def by (rule prefix_loop_stop)
  moreover have "old ! prefixLen old new = take n old ! prefixLen old new"
    using l by simp
  moreover have "new ! prefixLen old new = take n new ! prefixLen old new"
    using l by simp
  ultimately show False using assms(2) by simp
qed

lemma suffixLen_le:
  "suffixLen old new \<le> min (length old) (length new) - prefixLen old new"
  unfolding suffixLen_def by (rule suffix_loop_le) simp

lemma drop_eq_from_end:
  assumes "n \<le> length xs" and "n \<le> length ys"
    and "\<And>j. j < n \<Longrightarrow> xs ! (length xs - 1 - j) = ys ! (length ys - 1 - j)"
  shows "drop (length xs - n) xs = drop (length ys - n) (ys :: 'a list)"
proof (rule nth_equalityI)
  show "length (drop (length xs - n) xs) = length (drop (length ys - n) ys)"
    using assms(1,2) by simp
  fix i assume "i < length (drop (length xs - n) xs)"
  with assms(1) have i: "i < n" by simp
  then have "n - 1 - i < n" by simp
  from assms(3) [OF this] have "xs ! (length xs - 1 - (n - 1 - i)) = ys ! (length ys - 1 - (n - 1 - i))" .
  moreover have "length xs - 1 - (n - 1 - i) = length xs - n + i" using i assms(1) by simp
  moreover have "length ys - 1 - (n - 1 - i) = length ys - n + i" using i assms(2) by simp
  ultimately show "drop (length xs - n) xs ! i = drop (length ys - n) ys ! i"
    using assms(1,2) by simp
qed

lemma suffixLen_common:
  "drop (length old - suffixLen old new) old = drop (length new - suffixLen old new) new"
proof (rule drop_eq_from_end)
  show "suffixLen old new \<le> length old" "suffixLen old new \<le> length new"
    using suffixLen_le [of old new] by simp_all
  show "old ! (length old - 1 - j) = new ! (length new - 1 - j)" if "j < suffixLen old new" for j
    using that unfolding suffixLen_def by (rule suffix_loop_match [rotated]) simp
qed

lemma suffixLen_greatest:
  assumes "n \<le> min (length old) (length new) - prefixLen old new"
    and "drop (length old - n) old = drop (length new - n) new"
  shows "n \<le> suffixLen old new"
proof (rule ccontr)
  let ?s = "suffixLen old new"
  assume "\<not> n \<le> ?s"
  then have l: "?s < n" by simp
  with assms(1) have "?s < min (length old) (length new) - prefixLen old new" by simp
  then have ne: "old ! (length old - 1 - ?s) \<noteq> new ! (length new - 1 - ?s)"
    unfolding suffixLen_def by (rule suffix_loop_stop)
  from assms(1) have n: "n \<le> length old" "n \<le> length new" by simp_all
  have "old ! (length old - 1 - ?s) = drop (length old - n) old ! (n - 1 - ?s)"
    using l n by simp
  moreover have "new ! (length new - 1 - ?s) = drop (length new - n) new ! (n - 1 - ?s)"
    using l n by simp
  ultimately show False using ne assms(2) by simp
qed

section \<open>What the two nodes show\<close>

text \<open>
  The spans in terms of the two lengths, and the text of each node: the node of a side
  shows the string of that side, except when the common suffix is the whole of that
  string and the string is not empty; then the node shows the string twice.
\<close>

lemma getStringDiffSpans_eq:
  "getStringDiffSpans old new =
     (\<lparr>pre = take (prefixLen old new) old,
       middle = (if length old - suffixLen old new = 0 then drop (prefixLen old new) old
                 else take (length old - suffixLen old new - prefixLen old new)
                        (drop (prefixLen old new) old)),
       post = drop (length old - suffixLen old new) old\<rparr>,
      \<lparr>pre = take (prefixLen old new) old,
       middle = (if length new - suffixLen old new = 0 then drop (prefixLen old new) new
                 else take (length new - suffixLen old new - prefixLen old new)
                        (drop (prefixLen old new) new)),
       post = drop (length old - suffixLen old new) old\<rparr>)"
  using prefixLen_le [of old new]
  by (simp add: getStringDiffSpans_def slice_def or_undefined_def Let_def
        prefixLen_def [symmetric] suffixLen_def [symmetric] min_absorb2)

lemma take_mid_drop:
  "p \<le> e \<Longrightarrow> e \<le> length xs \<Longrightarrow> take p xs @ take (e - p) (drop p xs) @ drop e xs = xs"
  by (metis append.assoc append_take_drop_id le_add_diff_inverse take_add)

lemma shown_old:
  "shown (fst (getStringDiffSpans old new)) =
     (if suffixLen old new = length old \<and> old \<noteq> [] then old @ old else old)"
proof -
  let ?p = "prefixLen old new" and ?s = "suffixLen old new"
  have b: "?p + ?s \<le> length old"
    using suffixLen_le [of old new] prefixLen_le [of old new] by arith
  show ?thesis
  proof (cases "length old - ?s = 0")
    case True
    with b have "?p = 0" "?s = length old" by simp_all
    then show ?thesis by (simp add: getStringDiffSpans_eq shown_def)
  next
    case False
    with b have "?p \<le> length old - ?s" "?s \<noteq> length old" by simp_all
    then show ?thesis
      using False take_mid_drop [of ?p "length old - ?s" old]
      by (simp add: getStringDiffSpans_eq shown_def)
  qed
qed

lemma shown_new:
  "shown (snd (getStringDiffSpans old new)) =
     (if suffixLen old new = length new \<and> new \<noteq> [] then new @ new else new)"
proof -
  let ?p = "prefixLen old new" and ?s = "suffixLen old new"
  have b: "?p + ?s \<le> length new"
    using suffixLen_le [of old new] prefixLen_le [of old new] by arith
  have pre: "take ?p old = take ?p new" by (rule prefixLen_common)
  have post: "drop (length old - ?s) old = drop (length new - ?s) new" by (rule suffixLen_common)
  show ?thesis
  proof (cases "length new - ?s = 0")
    case True
    with b have "?p = 0" "?s = length new" by simp_all
    then show ?thesis using post by (simp add: getStringDiffSpans_eq shown_def)
  next
    case False
    with b have "?p \<le> length new - ?s" "?s \<noteq> length new" by simp_all
    then show ?thesis
      using False take_mid_drop [of ?p "length new - ?s" new] pre post
      by (simp add: getStringDiffSpans_eq shown_def)
  qed
qed

section \<open>The highlighter on concrete strings\<close>

lemma highlight_documented_examples:
  "getStringDiffSpans ''hello'' ''hello''
     = (\<lparr>pre = ''hello'', middle = [], post = []\<rparr>, \<lparr>pre = ''hello'', middle = [], post = []\<rparr>)"
  "getStringDiffSpans ''abcXdef'' ''abcYdef''
     = (\<lparr>pre = ''abc'', middle = ''X'', post = ''def''\<rparr>,
        \<lparr>pre = ''abc'', middle = ''Y'', post = ''def''\<rparr>)"
  "getStringDiffSpans [] ''abc''
     = (\<lparr>pre = [], middle = [], post = []\<rparr>, \<lparr>pre = [], middle = ''abc'', post = []\<rparr>)"
  by code_simp+

text \<open>
  C1. The spans of each side, put together, should give back that side's string. For
  the old string \<open>a\<close> and the new string \<open>ba\<close> the common suffix is the whole old
  string; \<open>oldStr.length - suffix\<close> is then 0, \<open>0 || undefined\<close> is \<open>undefined\<close>, and
  the slice for the old middle runs to the end of the string. The old node shows
  \<open>aa\<close>.
\<close>

theorem highlight_old_text_doubled:
  "getStringDiffSpans ''a'' ''ba''
     = (\<lparr>pre = [], middle = ''a'', post = ''a''\<rparr>, \<lparr>pre = [], middle = ''b'', post = ''a''\<rparr>)
   \<and> shown (fst (getStringDiffSpans ''a'' ''ba'')) = ''aa''
   \<and> shown (fst (getStringDiffSpans ''a'' ''ba'')) \<noteq> ''a''"
  by code_simp

text \<open>
  C6. The middle of each side should be the slice of that side from the prefix length
  to the length less the suffix length. For the old string \<open>ba\<close> and the new string
  \<open>a\<close> the loops give the prefix length 0 and the suffix length 1, so the new middle
  should be the empty slice from 0 to 0; the source returns \<open>a\<close>.
\<close>

theorem highlight_new_middle_not_slice:
  "prefix_loop ''ba'' ''a'' (min (length ''ba'') (length ''a'')) 0 = 0
   \<and> suffix_loop ''ba'' ''a'' (min (length ''ba'') (length ''a'') - 0) 0 = 1
   \<and> slice ''a'' 0 (Some (length ''a'' - 1)) = []
   \<and> middle (snd (getStringDiffSpans ''ba'' ''a'')) = ''a''"
  by code_simp

section \<open>The guard of the compare handler\<close>




end
